theory Spec2Isabelle
  imports Complex_Main
begin

section \<open>Cell graph: epic closure eligibility\<close>

text \<open>
  The bead (cell) projection row of \<^verbatim>\<open>types/beads-adapter.ts\<close> and the statuses
  of \<^verbatim>\<open>BeadStatus\<close>. Only the columns that the adapter's epic operations read are
  kept apart; the remaining columns of the row do not influence them.
\<close>

datatype BeadStatus = Open | In_progress | Blocked | Closed | Tombstone

record Bead =
  bead_id :: string
  bead_project_key :: string
  status :: BeadStatus
  title :: string
  priority :: nat
  parent_id :: "string option"
  deleted_at :: "nat option"

text \<open>
  Modelled from the spec: \<^verbatim>\<open>queryBeads\<close> of \<^verbatim>\<open>beads/projections.ts\<close> is
  not part of the sources at hand. The spec gives a cell query that is filtered by
  project, takes a \<^verbatim>\<open>parent_id\<close> filter and excludes soft-deleted rows unless
  \<^verbatim>\<open>include_deleted\<close> is set; \<^verbatim>\<open>isEpicClosureEligible\<close> calls it with
  the \<^verbatim>\<open>parent_id\<close> filter only.
\<close>

definition queryBeads :: "Bead list \<Rightarrow> string \<Rightarrow> string \<Rightarrow> Bead list" where
  "queryBeads db projectKey epicId =
     filter (\<lambda>b. bead_project_key b = projectKey \<and> parent_id b = Some epicId
                 \<and> deleted_at b = None) db"

text \<open>
  \<^verbatim>\<open>createBeadsAdapter(...).isEpicClosureEligible\<close>:
  \<^verbatim>\<open>children.every((child) => child.status === "closed")\<close>.
\<close>

definition isEpicClosureEligible :: "Bead list \<Rightarrow> string \<Rightarrow> string \<Rightarrow> bool" where
  "isEpicClosureEligible db projectKey epicId =
     list_all (\<lambda>child. status child = Closed) (queryBeads db projectKey epicId)"

definition tombstone_child :: Bead where
  "tombstone_child =
     \<lparr> bead_id = ''bd-child'', bead_project_key = ''p'', status = Tombstone,
       title = ''child'', priority = 2, parent_id = Some ''bd-epic'', deleted_at = None \<rparr>"

definition closed_child :: Bead where
  "closed_child =
     \<lparr> bead_id = ''bd-done'', bead_project_key = ''p'', status = Closed,
       title = ''done'', priority = 2, parent_id = Some ''bd-epic'', deleted_at = None \<rparr>"

section \<open>Storage adapter: \<^verbatim>\<open>LibSQLAdapter.transaction\<close>\<close>

text \<open>
  A statement handed to the libSQL client (\<^verbatim>\<open>InStatement\<close>): the SQL text and its
  optional arguments. Rows are kept as strings. A thrown JavaScript value is either an
  \<^verbatim>\<open>Error\<close> object (with its message) or something else; the \<^verbatim>\<open>catch\<close> block of
  \<^verbatim>\<open>transaction\<close> turns the latter into \<^verbatim>\<open>new Error(String(error))\<close>.
\<close>

type_synonym InStatement = "string \<times> string list option"
type_synonym Row = string

datatype thrown = Error string | NonError string

definition to_Error :: "thrown \<Rightarrow> thrown" where
  "to_Error e = (case e of Error m \<Rightarrow> Error m | NonError v \<Rightarrow> Error v)"

text \<open>
  The client of \<^verbatim>\<open>@libsql/client\<close> is an external library: it is a parameter, given
  by what \<^verbatim>\<open>execute\<close> and \<^verbatim>\<open>batch\<close> do to the database and what they answer.
\<close>

record 'db Client =
  execute :: "InStatement \<Rightarrow> 'db \<Rightarrow> (thrown + Row list) \<times> 'db"
  batch :: "InStatement list \<Rightarrow> 'db \<Rightarrow> (thrown + unit) \<times> 'db"

text \<open>
  The caller's function \<^verbatim>\<open>fn(tx)\<close>, as the sequence of calls it makes on the
  transaction handle: it returns, throws, awaits \<^verbatim>\<open>tx.query(sql, params)\<close> and goes
  on with the rows or with the client's error (which it may rethrow), or awaits
  \<^verbatim>\<open>tx.exec(sql)\<close> and goes on.
\<close>

datatype 'a TxProgram =
    Return 'a
  | Throw thrown
  | Query string "string list option" "thrown + Row list \<Rightarrow> 'a TxProgram"
  | Exec string "'a TxProgram"

text \<open>
  \<^verbatim>\<open>await fn(txAdapter)\<close>: \<^verbatim>\<open>txAdapter.query\<close> calls \<^verbatim>\<open>this.client.execute\<close>
  at once, \<^verbatim>\<open>txAdapter.exec\<close> only does \<^verbatim>\<open>txStatements.push({ sql })\<close>.
\<close>

primrec run_fn ::
  "'a TxProgram \<Rightarrow> ('db, 'z) Client_scheme \<Rightarrow> 'db \<Rightarrow> InStatement list
     \<Rightarrow> (thrown + 'a) \<times> 'db \<times> InStatement list" where
  "run_fn (Return v) c db txStatements = (Inr v, db, txStatements)"
| "run_fn (Throw e) c db txStatements = (Inl e, db, txStatements)"
| "run_fn (Query sql params k) c db txStatements =
     (case execute c (sql, params) db of (res, db') \<Rightarrow> run_fn (k res) c db' txStatements)"
| "run_fn (Exec sql k) c db txStatements = run_fn k c db (txStatements @ [(sql, None)])"

text \<open>
  \<^verbatim>\<open>transaction(fn)\<close>: run \<^verbatim>\<open>fn\<close>; when it returned and statements are pending,
  send them with \<^verbatim>\<open>client.batch(txStatements, "write")\<close>; an error of either step is
  rethrown as an \<^verbatim>\<open>Error\<close>. The result is what the caller gets and the database
  afterwards.
\<close>

definition transaction ::
  "('db, 'z) Client_scheme \<Rightarrow> 'a TxProgram \<Rightarrow> 'db \<Rightarrow> (thrown + 'a) \<times> 'db" where
  "transaction c fn db =
     (case run_fn fn c db [] of
        (Inl error, db1, txStatements) \<Rightarrow> (Inl (to_Error error), db1)
      | (Inr result, db1, txStatements) \<Rightarrow>
          if length txStatements > 0
          then (case batch c txStatements db1 of
                  (Inl error, db2) \<Rightarrow> (Inl (to_Error error), db2)
                | (Inr _, db2) \<Rightarrow> (Inr result, db2))
          else (Inr result, db1))"

text \<open>
  Two notions to state what the transaction does: the function with its
  \<^verbatim>\<open>tx.exec\<close> calls erased, and the statements that its \<^verbatim>\<open>tx.exec\<close> calls
  name, in the order of the calls.
\<close>

primrec strip_exec :: "'a TxProgram \<Rightarrow> 'a TxProgram" where
  "strip_exec (Return v) = Return v"
| "strip_exec (Throw e) = Throw e"
| "strip_exec (Query sql params k) = Query sql params (\<lambda>res. strip_exec (k res))"
| "strip_exec (Exec sql k) = strip_exec k"

primrec collected ::
  "'a TxProgram \<Rightarrow> ('db, 'z) Client_scheme \<Rightarrow> 'db \<Rightarrow> InStatement list" where
  "collected (Return v) c db = []"
| "collected (Throw e) c db = []"
| "collected (Query sql params k) c db =
     (case execute c (sql, params) db of (res, db') \<Rightarrow> collected (k res) c db')"
| "collected (Exec sql k) c db = (sql, None) # collected k c db"

text \<open>
  A small client to run the adapter on: the database is one table \<^verbatim>\<open>t\<close> of one
  column, \<^verbatim>\<open>SELECT v FROM t\<close> answers its rows, \<^verbatim>\<open>INSERT INTO t \<close> followed by a
  value appends that value, anything else is an SQL error. A batch applies all its
  statements or none.
\<close>

definition table_execute :: "InStatement \<Rightarrow> Row list \<Rightarrow> (thrown + Row list) \<times> Row list" where
  "table_execute st rows =
     (if fst st = ''SELECT v FROM t'' then (Inr rows, rows)
      else if take 14 (fst st) = ''INSERT INTO t '' then (Inr [], rows @ [drop 14 (fst st)])
      else (Inl (Error ''SQL error''), rows))"

primrec apply_all :: "InStatement list \<Rightarrow> Row list \<Rightarrow> thrown + Row list" where
  "apply_all [] rows = Inr rows"
| "apply_all (st # sts) rows =
     (case table_execute st rows of
        (Inl e, _) \<Rightarrow> Inl e
      | (Inr _, rows') \<Rightarrow> apply_all sts rows')"

definition table_batch :: "InStatement list \<Rightarrow> Row list \<Rightarrow> (thrown + unit) \<times> Row list" where
  "table_batch sts rows =
     (case apply_all sts rows of Inl e \<Rightarrow> (Inl e, rows) | Inr rows' \<Rightarrow> (Inr (), rows'))"

definition table_client :: "Row list Client" where
  "table_client = \<lparr> execute = table_execute, batch = table_batch \<rparr>"

section \<open>Event store and durable stream adapter\<close>

text \<open>
  An event of the log, with the attributes every event has; the fields that depend on
  the event type are kept in \<open>payload\<close>.
\<close>

record AgentEvent =
  event_id :: nat
  sequence :: nat
  event_type :: string
  project_key :: string
  timestamp :: nat
  payload :: string

definition matches_project :: "string option \<Rightarrow> AgentEvent \<Rightarrow> bool" where
  "matches_project projectKey e =
     (case projectKey of None \<Rightarrow> True | Some pk \<Rightarrow> project_key e = pk)"

text \<open>
  Modelled from the spec: \<^verbatim>\<open>getLatestSequence\<close>, \<^verbatim>\<open>appendEvent\<close>,
  \<^verbatim>\<open>appendEvents\<close> and \<^verbatim>\<open>readEvents\<close> of the event store
  (\<^verbatim>\<open>streams/store-drizzle.ts\<close>, reached through \<^verbatim>\<open>SwarmMailAdapter\<close>) are not
  part of the sources at hand. Following the spec, the store is the list of its events
  in insertion order; \<^verbatim>\<open>getLatestSequence(projectKey?)\<close> is the largest sequence
  and 0 when there is none. A project key restricts it to the events of that project:
  the spec's data model has every row owned by its project, with ``explicit project
  filtering a required parameter on every query-returning operation'', and the stream
  adapter, which passes its key to both \<^verbatim>\<open>readEvents\<close> and
  \<^verbatim>\<open>getLatestSequence\<close>, documents it as the ``project key to filter events by''.
  \<^verbatim>\<open>appendEvent\<close> assigns the next sequence of the database's counter and inserts
  the event; \<^verbatim>\<open>readEvents\<close> returns the events of the project with
  \<^verbatim>\<open>sequence > afterSequence\<close> in ascending sequence order, at most \<^verbatim>\<open>limit\<close>
  of them.
\<close>

definition getLatestSequence :: "AgentEvent list \<Rightarrow> string option \<Rightarrow> nat" where
  "getLatestSequence events projectKey =
     fold max (map sequence (filter (matches_project projectKey) events)) 0"

definition appendEvent :: "AgentEvent list \<Rightarrow> AgentEvent \<Rightarrow> AgentEvent list" where
  "appendEvent events e =
     events @ [e\<lparr> event_id := Suc (getLatestSequence events None),
                  sequence := Suc (getLatestSequence events None) \<rparr>]"

definition appendEvents :: "AgentEvent list \<Rightarrow> AgentEvent list \<Rightarrow> AgentEvent list" where
  "appendEvents events es = fold (\<lambda>e evs. appendEvent evs e) es events"

definition readEvents ::
  "AgentEvent list \<Rightarrow> string option \<Rightarrow> nat option \<Rightarrow> nat option \<Rightarrow> AgentEvent list" where
  "readEvents events projectKey afterSequence limit =
     (let matching = filter (\<lambda>e. matches_project projectKey e
                \<and> (case afterSequence of None \<Rightarrow> True | Some a \<Rightarrow> a < sequence e)) events;
          ordered = sort_key sequence matching
      in case limit of None \<Rightarrow> ordered | Some n \<Rightarrow> take n ordered)"

text \<open>
  \<^verbatim>\<open>StreamEvent\<close> and the adapter of \<^verbatim>\<open>createDurableStreamAdapter(swarmMail,
  projectKey)\<close>. \<^verbatim>\<open>JSON.stringify\<close> is the parameter \<open>stringify\<close>.
\<close>

record StreamEvent =
  offset :: nat
  data :: string
  stream_timestamp :: nat

definition to_StreamEvent :: "(AgentEvent \<Rightarrow> string) \<Rightarrow> AgentEvent \<Rightarrow> StreamEvent" where
  "to_StreamEvent stringify event =
     \<lparr> offset = sequence event, data = stringify event, stream_timestamp = timestamp event \<rparr>"

definition read ::
  "(AgentEvent \<Rightarrow> string) \<Rightarrow> AgentEvent list \<Rightarrow> string \<Rightarrow> nat \<Rightarrow> nat \<Rightarrow> StreamEvent list" where
  "read stringify events projectKey off limit =
     map (to_StreamEvent stringify)
       (readEvents events (Some projectKey) (Some off) (Some limit))"

definition head :: "AgentEvent list \<Rightarrow> string \<Rightarrow> nat" where
  "head events projectKey = getLatestSequence events (Some projectKey)"

definition ev :: "string \<Rightarrow> string \<Rightarrow> AgentEvent" where
  "ev pk name =
     \<lparr> event_id = 0, sequence = 0, event_type = ''agent_active'', project_key = pk,
       timestamp = 1700000000000, payload = name \<rparr>"

definition three_events :: "AgentEvent list" where
  "three_events = appendEvents [] [ev ''p'' ''a'', ev ''q'' ''b'', ev ''p'' ''c'']"

text \<open>
  The log's invariant: sequences grow strictly in insertion order.
\<close>

definition increasing :: "AgentEvent list \<Rightarrow> bool" where
  "increasing events \<longleftrightarrow> sorted_wrt (<) (map sequence events)"

subsection \<open>Subscriptions\<close>

text \<open>
  \<^verbatim>\<open>subscribe(callback, startOffset?)\<close>. The closure's variables
  \<^verbatim>\<open>lastSequence\<close>, \<^verbatim>\<open>isActive\<close> and \<^verbatim>\<open>initialized\<close> are fields of the state;
  \<open>pollInterval\<close> says whether the interval timer is still registered;
  \<open>headRequest\<close> is the asynchronous \<^verbatim>\<open>getLatestSequence\<close> of a subscription
  without start offset; \<open>polls\<close> are the timer callbacks that are awaiting
  \<^verbatim>\<open>readEvents\<close>, each with the \<^verbatim>\<open>afterSequence\<close> it asked for and, once the
  database has answered, the events it fetched; \<open>received\<close> lists the calls of the
  subscriber's callback.
\<close>

datatype HeadRequest = NoRequest | Pending | Answered nat

record Subscription =
  lastSequence :: nat
  isActive :: bool
  initialized :: bool
  pollInterval :: bool
  headRequest :: HeadRequest
  polls :: "(nat \<times> AgentEvent list option) list"
  received :: "StreamEvent list"

definition subscribe :: "nat option \<Rightarrow> Subscription" where
  "subscribe startOffset =
     \<lparr> lastSequence = (case startOffset of None \<Rightarrow> 0 | Some n \<Rightarrow> n),
       isActive = True,
       initialized = (startOffset \<noteq> None),
       pollInterval = True,
       headRequest = (if startOffset = None then Pending else NoRequest),
       polls = [],
       received = [] \<rparr>"

text \<open>The returned function: \<^verbatim>\<open>isActive = false; clearInterval(pollInterval)\<close>.\<close>

definition unsubscribe :: "Subscription \<Rightarrow> Subscription" where
  "unsubscribe s = s\<lparr> isActive := False, pollInterval := False \<rparr>"

text \<open>
  The \<^verbatim>\<open>for (const event of events)\<close> loop of a poll. It runs without awaiting, so
  nothing but the callback can interleave with it; the callback may itself call the
  unsubscribe function, which \<open>callback\<close> tells by answering \<open>True\<close>.
\<close>

fun deliver ::
  "(StreamEvent \<Rightarrow> bool) \<Rightarrow> (AgentEvent \<Rightarrow> string) \<Rightarrow> AgentEvent list
     \<Rightarrow> Subscription \<Rightarrow> Subscription" where
  "deliver callback stringify [] s = s"
| "deliver callback stringify (event # rest) s =
     (if \<not> isActive s then s
      else let streamEvent = to_StreamEvent stringify event;
               s1 = s\<lparr> received := received s @ [streamEvent] \<rparr>;
               s2 = (if callback streamEvent then unsubscribe s1 else s1)
           in deliver callback stringify rest (s2\<lparr> lastSequence := sequence event \<rparr>))"

text \<open>
  What can happen next, in any order the event loop and the database allow: an event is
  appended to the log; the interval timer fires (a cleared timer never does) and its
  callback, unless it returns at once, calls \<^verbatim>\<open>readEvents\<close>; the database answers
  a pending \<^verbatim>\<open>readEvents\<close> with the events of that moment, or fails it (the
  \<^verbatim>\<open>catch\<close> logs the error and the poll ends); an answered poll resumes and runs
  its loop; the initial \<^verbatim>\<open>getLatestSequence\<close> is answered, and its continuation
  runs; the subscriber calls the unsubscribe function.
\<close>

datatype Action =
    Append AgentEvent
  | Tick
  | Fetch nat
  | FetchError nat
  | Resume nat
  | HeadFetch
  | HeadResume
  | Unsubscribe

definition drop_nth :: "nat \<Rightarrow> 'a list \<Rightarrow> 'a list" where
  "drop_nth i xs = take i xs @ drop (Suc i) xs"

fun step ::
  "(StreamEvent \<Rightarrow> bool) \<Rightarrow> (AgentEvent \<Rightarrow> string) \<Rightarrow> string \<Rightarrow> Action
     \<Rightarrow> AgentEvent list \<times> Subscription \<Rightarrow> AgentEvent list \<times> Subscription" where
  "step cb str pk (Append e) (events, s) = (appendEvent events e, s)"
| "step cb str pk Tick (events, s) =
     (events,
      if \<not> pollInterval s then s
      else if \<not> isActive s \<or> \<not> initialized s then s
      else s\<lparr> polls := polls s @ [(lastSequence s, None)] \<rparr>)"
| "step cb str pk (Fetch i) (events, s) =
     (events,
      if i < length (polls s) \<and> snd (polls s ! i) = None
      then s\<lparr> polls := (polls s)[i := (fst (polls s ! i),
                 Some (readEvents events (Some pk) (Some (fst (polls s ! i))) (Some 100)))] \<rparr>
      else s)"
| "step cb str pk (FetchError i) (events, s) =
     (events,
      if i < length (polls s) \<and> snd (polls s ! i) = None
      then s\<lparr> polls := drop_nth i (polls s) \<rparr>
      else s)"
| "step cb str pk (Resume i) (events, s) =
     (events,
      if i < length (polls s)
      then (case snd (polls s ! i) of
              None \<Rightarrow> s
            | Some fetched \<Rightarrow> deliver cb str fetched (s\<lparr> polls := drop_nth i (polls s) \<rparr>))
      else s)"
| "step cb str pk HeadFetch (events, s) =
     (events,
      if headRequest s = Pending
      then s\<lparr> headRequest := Answered (getLatestSequence events (Some pk)) \<rparr>
      else s)"
| "step cb str pk HeadResume (events, s) =
     (events,
      case headRequest s of
        Answered h \<Rightarrow> s\<lparr> lastSequence := h, initialized := True, headRequest := NoRequest \<rparr>
      | _ \<Rightarrow> s)"
| "step cb str pk Unsubscribe (events, s) = (events, unsubscribe s)"

definition run ::
  "(StreamEvent \<Rightarrow> bool) \<Rightarrow> (AgentEvent \<Rightarrow> string) \<Rightarrow> string \<Rightarrow> Action list
     \<Rightarrow> AgentEvent list \<times> Subscription \<Rightarrow> AgentEvent list \<times> Subscription" where
  "run cb str pk acts w = fold (step cb str pk) acts w"

text \<open>
  Schedules in which polls do not overlap: every tick of the timer is followed at once
  by the answer of the database and by the resumption of that poll, and between polls
  events are appended. For such schedules \<open>in_sync\<close> is the invariant of a
  subscription that started at \<open>start\<close>: no poll is pending, and the callback has
  been called, in order, with the events of the project whose sequence is above
  \<open>start\<close> and at most \<^verbatim>\<open>lastSequence\<close>, which is the offset of the last one.
\<close>

fun sequential :: "Action list \<Rightarrow> bool" where
  "sequential [] = True"
| "sequential (Append e # acts) = sequential acts"
| "sequential (Tick # Fetch i # Resume j # acts) = (i = 0 \<and> j = 0 \<and> sequential acts)"
| "sequential _ = False"

definition in_sync ::
  "(AgentEvent \<Rightarrow> string) \<Rightarrow> string \<Rightarrow> nat \<Rightarrow> AgentEvent list \<times> Subscription \<Rightarrow> bool" where
  "in_sync str pk start w \<longleftrightarrow>
     increasing (fst w) \<and> isActive (snd w) \<and> initialized (snd w) \<and> pollInterval (snd w)
     \<and> polls (snd w) = [] \<and> start \<le> lastSequence (snd w)
     \<and> (lastSequence (snd w) = start \<or> lastSequence (snd w) \<le> getLatestSequence (fst w) None)
     \<and> (if received (snd w) = [] then start else offset (last (received (snd w))))
         = lastSequence (snd w)
     \<and> received (snd w) = map (to_StreamEvent str)
          (filter (\<lambda>e. project_key e = pk \<and> start < sequence e
                        \<and> sequence e \<le> lastSequence (snd w)) (fst w))"

definition stopped :: "Subscription \<Rightarrow> bool" where
  "stopped s \<longleftrightarrow> \<not> isActive s \<and> \<not> pollInterval s"

text \<open>
  A reader that receives the first event, notes its offset and unsubscribes, and the
  same reader after it has subscribed again from that offset: one more event is
  appended, the timer fires twice before the database has answered the first read, and
  both polls resume.
\<close>

definition first_session :: "AgentEvent list \<times> Subscription" where
  "first_session =
     run (\<lambda>_. False) payload ''p'' [Tick, Fetch 0, Resume 0, Unsubscribe]
       (appendEvents [] [ev ''p'' ''a''], subscribe (Some 0))"

definition second_session :: "AgentEvent list \<times> Subscription" where
  "second_session =
     run (\<lambda>_. False) payload ''p''
       [Append (ev ''p'' ''b''), Tick, Tick, Fetch 0, Fetch 1, Resume 0, Resume 0]
       (fst first_session, subscribe (Some (offset (last (received (snd first_session))))))"

definition in_flight_poll :: "AgentEvent list \<times> Subscription" where
  "in_flight_poll =
     run (\<lambda>_. False) payload ''p'' [Tick, Fetch 0]
       (appendEvents [] [ev ''p'' ''a''], subscribe (Some 0))"

text \<open>
  Calls of the callback and unsubscription from inside it. \<open>no_call_after\<close> says
  of a list of callback calls that a call in which the callback unsubscribes is the
  last one. \<open>calls_ok\<close> relates a state to a later one: the later calls extend the
  earlier ones by such a list, which is empty when the subscription was already
  inactive; a call that unsubscribes leaves the subscription inactive with its interval
  cleared; and neither flag comes back.
\<close>

fun no_call_after :: "(StreamEvent \<Rightarrow> bool) \<Rightarrow> StreamEvent list \<Rightarrow> bool" where
  "no_call_after cb [] = True"
| "no_call_after cb (x # xs) = ((cb x \<longrightarrow> xs = []) \<and> no_call_after cb xs)"

definition calls_ok :: "(StreamEvent \<Rightarrow> bool) \<Rightarrow> Subscription \<Rightarrow> Subscription \<Rightarrow> bool" where
  "calls_ok cb s s' \<longleftrightarrow>
     (\<exists>new. received s' = received s @ new \<and> no_call_after cb new
        \<and> (\<not> isActive s \<longrightarrow> new = [])
        \<and> ((\<exists>x \<in> set new. cb x) \<longrightarrow> \<not> isActive s' \<and> \<not> pollInterval s'))
     \<and> (\<not> isActive s \<longrightarrow> \<not> isActive s')
     \<and> (\<not> pollInterval s \<longrightarrow> \<not> pollInterval s')"

text \<open>
  A subscriber whose callback unsubscribes when it sees offset 1, on a log of three
  events of its project, for two polls.
\<close>

definition unsubscribing_reader :: "AgentEvent list \<times> Subscription" where
  "unsubscribing_reader =
     run (\<lambda>se. offset se = 1) payload ''p'' [Tick, Fetch 0, Resume 0, Tick, Fetch 0, Resume 0]
       (appendEvents [] [ev ''p'' ''a'', ev ''p'' ''b'', ev ''p'' ''c''], subscribe (Some 0))"

section \<open>Semantic memory: vector search of the memory store\<close>



datatype MatchType = Vector | Fts

















section \<open>Replay of the event log\<close>













section \<open>Reservation arbiter\<close>

text \<open>
  Modelled from the spec: \<^verbatim>\<open>reserveFiles\<close> and the projection of
  \<^verbatim>\<open>file_reserved\<close> (\<^verbatim>\<open>streams/store.ts\<close>, \<^verbatim>\<open>streams/projections.ts\<close>) are
  not part of the sources at hand; only tests that call them are.
\<close>






















section \<open>Theorems\<close>

subsection \<open>Epic closure\<close>

text \<open>
  C6, as the code has it: \<^verbatim>\<open>isEpicClosureEligible\<close> answers true exactly when every
  cell that the child query returns for the epic (the cells of the project whose
  \<^verbatim>\<open>parent_id\<close> is the epic and that are not soft-deleted) has status
  \<^verbatim>\<open>closed\<close>. No other status counts, \<^verbatim>\<open>tombstone\<close> included.
\<close>

theorem isEpicClosureEligible_iff_all_closed:
  "isEpicClosureEligible db projectKey epicId \<longleftrightarrow>
     (\<forall>b \<in> set db. bead_project_key b = projectKey \<and> parent_id b = Some epicId
         \<and> deleted_at b = None \<longrightarrow> status b = Closed)"
  by (auto simp: isEpicClosureEligible_def queryBeads_def list_all_iff)

theorem isEpicClosureEligible_iff_all_closed_witness:
  "closed_child \<in> set [closed_child]
   \<and> bead_project_key closed_child = ''p'' \<and> parent_id closed_child = Some ''bd-epic''
   \<and> deleted_at closed_child = None \<and> status closed_child = Closed
   \<and> isEpicClosureEligible [closed_child] ''p'' ''bd-epic''"
  using isEpicClosureEligible_iff_all_closed [of "[closed_child]" "''p''" "''bd-epic''"]
  by (simp add: closed_child_def)

text \<open>
  C6 as claimed fails: an epic whose only child has status \<^verbatim>\<open>tombstone\<close> has all
  its children closed or tombstoned, yet it is not eligible.
\<close>

theorem isEpicClosureEligible_tombstone_counterexample:
  "queryBeads [tombstone_child] ''p'' ''bd-epic'' = [tombstone_child]
   \<and> (status tombstone_child = Closed \<or> status tombstone_child = Tombstone)
   \<and> \<not> isEpicClosureEligible [tombstone_child] ''p'' ''bd-epic''"
  by (simp add: isEpicClosureEligible_def queryBeads_def tombstone_child_def)

subsection \<open>Transactions of the libSQL adapter\<close>

lemma run_fn_strip_exec:
  "run_fn fn c db txs =
     (case run_fn (strip_exec fn) c db [] of
        (r, db', _) \<Rightarrow> (r, db', txs @ collected fn c db))"
  by (induction fn arbitrary: db txs) (auto split: prod.splits)

lemma collected_strip_exec: "collected (strip_exec fn) c db = []"
  by (induction fn arbitrary: db) (auto split: prod.splits)

text \<open>
  C10: whatever \<^verbatim>\<open>fn\<close> is, \<^verbatim>\<open>transaction(fn)\<close> does to the database and answers
  to \<^verbatim>\<open>fn\<close> exactly what it would with every \<^verbatim>\<open>tx.exec\<close> call erased from
  \<^verbatim>\<open>fn\<close> (so no \<^verbatim>\<open>tx.query\<close> sees the effect of an earlier \<^verbatim>\<open>tx.exec\<close>, while
  every \<^verbatim>\<open>tx.query\<close> reaches the client at once), and then, only when \<^verbatim>\<open>fn\<close> has
  returned and named at least one statement, sends the statements of the
  \<^verbatim>\<open>tx.exec\<close> calls as one batch, in the order of the calls.
\<close>

theorem transaction_defers_exec:
  "transaction c fn db =
     (case run_fn (strip_exec fn) c db [] of
        (Inl error, db1, _) \<Rightarrow> (Inl (to_Error error), db1)
      | (Inr result, db1, _) \<Rightarrow>
          if collected fn c db = [] then (Inr result, db1)
          else (case batch c (collected fn c db) db1 of
                  (Inl error, db2) \<Rightarrow> (Inl (to_Error error), db2)
                | (Inr _, db2) \<Rightarrow> (Inr result, db2)))"
  unfolding transaction_def
  by (subst run_fn_strip_exec) (auto split: prod.splits sum.splits)

theorem transaction_defers_exec_witness:
  "transaction table_client
     (Exec ''INSERT INTO t a'' (Query ''SELECT v FROM t'' None (\<lambda>res. Return res))) []
   = (Inr (Inr []), [''a''])"
  using transaction_defers_exec [of table_client
     "Exec ''INSERT INTO t a'' (Query ''SELECT v FROM t'' None (\<lambda>res. Return res))" "[]"]
  by (simp add: table_client_def table_execute_def table_batch_def)

text \<open>
  C1 on the code: a function that writes through \<^verbatim>\<open>tx.query\<close> and then throws.
  The caller gets the error, and the row is in the table all the same: nothing
  undoes what \<^verbatim>\<open>tx.query\<close> has executed.
\<close>

theorem transaction_query_write_survives_throw:
  "transaction table_client
     (Query ''INSERT INTO t a'' None (\<lambda>res. Throw (Error ''boom''))) []
   = (Inl (Error ''boom''), [''a''])"
  by (simp add: transaction_def table_client_def table_execute_def to_Error_def)

subsection \<open>Event store and stream reads\<close>

lemma fold_max_Max: "fold max xs (a::nat) = Max (insert a (set xs))"
proof (induction xs arbitrary: a)
  case Nil
  show ?case by simp
next
  case (Cons x xs)
  have "Max (insert (max x a) (set xs)) = Max (insert a (insert x (set xs)))"
    by (cases "set xs = {}") (auto simp: max.commute max.left_commute max.assoc)
  with Cons show ?case by simp
qed

lemma read_spec:
  "read stringify events pk off limit
     = map (to_StreamEvent stringify)
         (take limit (sort_key sequence (filter (\<lambda>e. project_key e = pk \<and> off < sequence e) events)))"
  by (simp add: read_def readEvents_def matches_project_def)

lemma map_offset_to_StreamEvent: "map offset (map (to_StreamEvent f) xs) = map sequence xs"
  by (simp add: to_StreamEvent_def comp_def)

lemma sorted_read: "sorted (map offset (read stringify events pk off limit))"
  unfolding read_spec map_offset_to_StreamEvent
  by (simp flip: take_map add: sorted_wrt_take)

lemma getLatestSequence_appendEvent_None:
  "getLatestSequence (appendEvent events e) None = Suc (getLatestSequence events None)"
  by (simp add: getLatestSequence_def appendEvent_def matches_project_def fold_max_Max
      del: Max_insert)

lemma appendEvents_snoc:
  "appendEvents events (es @ [e]) = appendEvent (appendEvents events es) e"
  by (simp add: appendEvents_def)

lemma getLatestSequence_appendEvents_None:
  "getLatestSequence (appendEvents events es) None = getLatestSequence events None + length es"
  by (induction es rule: rev_induct)
     (simp_all add: appendEvents_snoc getLatestSequence_appendEvent_None, simp add: appendEvents_def)

lemma last_appendEvents:
  "es \<noteq> [] \<Longrightarrow>
     sequence (last (appendEvents events es)) = getLatestSequence (appendEvents events es) None"
  by (cases es rule: rev_cases)
     (simp_all add: appendEvents_snoc getLatestSequence_appendEvent_None, simp add: appendEvent_def)

lemma getLatestSequence_Max:
  "getLatestSequence events projectKey
     = Max (insert 0 (sequence ` {e \<in> set events. matches_project projectKey e}))"
  by (simp add: getLatestSequence_def fold_max_Max del: Max_insert)

lemma three_events_eq: "three_events = [(ev ''p'' ''a'')\<lparr>event_id := 1, sequence := 1\<rparr>,
   (ev ''q'' ''b'')\<lparr>event_id := 2, sequence := 2\<rparr>, (ev ''p'' ''c'')\<lparr>event_id := 3, sequence := 3\<rparr>]"
  by (simp add: three_events_def appendEvents_def appendEvent_def getLatestSequence_def matches_project_def ev_def)



text \<open>
  C3: \<^verbatim>\<open>read(offset, limit)\<close> returns the stored events of the adapter's project
  whose sequence is greater than \<^verbatim>\<open>offset\<close>, in ascending sequence order, cut
  after \<^verbatim>\<open>limit\<close> entries; each entry carries the event's sequence as its offset, the
  JSON text of the event as its data and the event's timestamp.
\<close>

theorem read_returns_events_after_offset:
  "read stringify events pk off limit
     = map (to_StreamEvent stringify)
         (take limit (sort_key sequence
            (filter (\<lambda>e. project_key e = pk \<and> off < sequence e) events)))
   \<and> sorted (map offset (read stringify events pk off limit))
   \<and> length (read stringify events pk off limit)
       = min limit (length (filter (\<lambda>e. project_key e = pk \<and> off < sequence e) events))
   \<and> (\<forall>se \<in> set (read stringify events pk off limit).
         \<exists>e \<in> set events. project_key e = pk \<and> off < sequence e
           \<and> se = \<lparr> offset = sequence e, data = stringify e, stream_timestamp = timestamp e \<rparr>)"
proof (intro conjI)
  show "read stringify events pk off limit
     = map (to_StreamEvent stringify)
         (take limit (sort_key sequence
            (filter (\<lambda>e. project_key e = pk \<and> off < sequence e) events)))"
    by (rule read_spec)
  show "sorted (map offset (read stringify events pk off limit))"
    by (rule sorted_read)
  show "length (read stringify events pk off limit)
       = min limit (length (filter (\<lambda>e. project_key e = pk \<and> off < sequence e) events))"
    by (simp add: read_spec min.commute)
  show "\<forall>se \<in> set (read stringify events pk off limit).
         \<exists>e \<in> set events. project_key e = pk \<and> off < sequence e
           \<and> se = \<lparr> offset = sequence e, data = stringify e, stream_timestamp = timestamp e \<rparr>"
  proof
    fix se assume "se \<in> set (read stringify events pk off limit)"
    then obtain e where e: "e \<in> set (take limit (sort_key sequence
            (filter (\<lambda>e. project_key e = pk \<and> off < sequence e) events)))"
      and se: "se = to_StreamEvent stringify e"
      unfolding read_spec by auto
    from e have "e \<in> set (sort_key sequence
            (filter (\<lambda>e. project_key e = pk \<and> off < sequence e) events))"
      by (rule in_set_takeD)
    then have "e \<in> set events" "project_key e = pk" "off < sequence e" by auto
    with se show "\<exists>e \<in> set events. project_key e = pk \<and> off < sequence e
           \<and> se = \<lparr> offset = sequence e, data = stringify e, stream_timestamp = timestamp e \<rparr>"
      by (auto simp: to_StreamEvent_def)
  qed
qed

theorem read_returns_events_after_offset_witness:
  "read payload three_events ''p'' 1 10
    = [\<lparr> offset = 3, data = ''c'', stream_timestamp = 1700000000000 \<rparr>]"
proof -
  have "read payload three_events ''p'' 1 10
     = map (to_StreamEvent payload)
         (take 10 (sort_key sequence
            (filter (\<lambda>e. project_key e = ''p'' \<and> 1 < sequence e) three_events)))"
    using read_returns_events_after_offset [of payload three_events "''p''" 1 10]
    by (rule conjunct1)
  then show ?thesis
    by (simp add: three_events_eq ev_def to_StreamEvent_def)
qed

lemma head_le_latest: "head events pk \<le> getLatestSequence events None"
  unfolding head_def getLatestSequence_Max
  by (rule Max_mono) (auto simp: matches_project_def)

lemma head_appendEvent:
  "head (appendEvent events e) pk
     = (if project_key e = pk then Suc (getLatestSequence events None) else head events pk)"
proof -
  have "max (Suc (getLatestSequence events None)) (head events pk)
          = Suc (getLatestSequence events None)"
    using head_le_latest [of events pk] by simp
  then show ?thesis
    by (simp add: head_def getLatestSequence_def appendEvent_def matches_project_def)
qed

lemma sequence_last_appendEvent:
  "sequence (last (appendEvent events e)) = Suc (getLatestSequence events None)"
  by (simp add: appendEvent_def)

text \<open>
  C8, as the store and the adapter have it: on an empty database the latest sequence
  is 0, for every project key, and so is \<^verbatim>\<open>head()\<close>; appending events \<open>es\<close> to
  a database raises \<^verbatim>\<open>getLatestSequence()\<close> without a project key by the number of
  appends, and after at least one append it is the sequence of the event appended last,
  which is the largest sequence stored; \<^verbatim>\<open>head()\<close>, which passes the adapter's
  project key, is the largest sequence among the stored events of that project (0 when
  the project has none): the sequence of the event appended last when that event is of
  the adapter's project, and a smaller number when it is of another project.
\<close>

theorem getLatestSequence_head_spec:
  "getLatestSequence [] projectKey = 0
   \<and> head [] pk = 0
   \<and> getLatestSequence (appendEvents events es) None
        = getLatestSequence events None + length es
   \<and> (es \<noteq> [] \<longrightarrow>
        getLatestSequence (appendEvents events es) None
          = sequence (last (appendEvents events es)))
   \<and> getLatestSequence (appendEvents events es) None
        = Max (insert 0 (sequence ` set (appendEvents events es)))
   \<and> head events pk = Max (insert 0 (sequence ` {e \<in> set events. project_key e = pk}))
   \<and> (es \<noteq> [] \<and> project_key (last es) = pk \<longrightarrow>
        head (appendEvents events es) pk = sequence (last (appendEvents events es)))
   \<and> (es \<noteq> [] \<and> project_key (last es) \<noteq> pk \<longrightarrow>
        head (appendEvents events es) pk < sequence (last (appendEvents events es)))"
proof (intro conjI impI)
  show "getLatestSequence [] projectKey = 0"
    by (simp add: getLatestSequence_def)
  show "head [] pk = 0"
    by (simp add: head_def getLatestSequence_def)
  show "getLatestSequence (appendEvents events es) None
        = getLatestSequence events None + length es"
    by (rule getLatestSequence_appendEvents_None)
  show "getLatestSequence (appendEvents events es) None
          = sequence (last (appendEvents events es))"
    if "es \<noteq> []" using that by (simp add: last_appendEvents)
  show "getLatestSequence (appendEvents events es) None
        = Max (insert 0 (sequence ` set (appendEvents events es)))"
    by (simp add: getLatestSequence_Max matches_project_def del: Max_insert)
  show "head events pk = Max (insert 0 (sequence ` {e \<in> set events. project_key e = pk}))"
    by (simp add: head_def getLatestSequence_Max matches_project_def del: Max_insert)
  show "head (appendEvents events es) pk = sequence (last (appendEvents events es))"
    if "es \<noteq> [] \<and> project_key (last es) = pk"
  proof -
    from that obtain es' e where es: "es = es' @ [e]" and e: "project_key e = pk"
      by (cases es rule: rev_cases) auto
    show ?thesis
      unfolding es appendEvents_snoc sequence_last_appendEvent
      by (simp add: head_appendEvent e)
  qed
  show "head (appendEvents events es) pk < sequence (last (appendEvents events es))"
    if "es \<noteq> [] \<and> project_key (last es) \<noteq> pk"
  proof -
    from that obtain es' e where es: "es = es' @ [e]" and e: "project_key e \<noteq> pk"
      by (cases es rule: rev_cases) auto
    have "head (appendEvents events es') pk \<le> getLatestSequence (appendEvents events es') None"
      by (rule head_le_latest)
    then show ?thesis
      unfolding es appendEvents_snoc sequence_last_appendEvent
      by (simp add: head_appendEvent e)
  qed
qed

theorem getLatestSequence_head_spec_witness:
  "[ev ''p'' ''a'', ev ''q'' ''b'', ev ''p'' ''c''] \<noteq> []
   \<and> project_key (last [ev ''p'' ''a'', ev ''q'' ''b'', ev ''p'' ''c'']) = ''p''
   \<and> getLatestSequence three_events None = 3
   \<and> sequence (last three_events) = 3
   \<and> head three_events ''p'' = 3
   \<and> head three_events ''q'' < 3"
proof -
  let ?es = "[ev ''p'' ''a'', ev ''q'' ''b'', ev ''p'' ''c'']"
  have ne: "?es \<noteq> []" by simp
  have p: "project_key (last ?es) = ''p''" and q: "project_key (last ?es) \<noteq> ''q''"
    by (simp_all add: ev_def)
  have last3: "sequence (last three_events) = 3"
    by (simp add: three_events_eq)
  have "getLatestSequence three_events None = sequence (last three_events)"
    and "head three_events ''p'' = sequence (last three_events)"
    using getLatestSequence_head_spec [of None "''p''" "[]" ?es] ne p
    unfolding three_events_def by blast+
  moreover have "head three_events ''q'' < sequence (last three_events)"
    using getLatestSequence_head_spec [of None "''q''" "[]" ?es] ne q
    unfolding three_events_def by blast
  ultimately show ?thesis using ne p last3 by simp
qed

text \<open>
  C8 as claimed fails for \<^verbatim>\<open>head()\<close>: with events of the projects \<^verbatim>\<open>p\<close>,
  \<^verbatim>\<open>q\<close>, \<^verbatim>\<open>p\<close> appended in this order, the adapter of project \<^verbatim>\<open>q\<close> answers
  2, while the event appended last, and the largest sequence stored, is 3.
\<close>

theorem head_other_project_counterexample:
  "head three_events ''q'' = 2 \<and> sequence (last three_events) = 3
   \<and> getLatestSequence three_events None = 3"
  by (simp add: three_events_eq head_def getLatestSequence_def matches_project_def ev_def)

lemma increasing_latest:
  "increasing events \<Longrightarrow> e \<in> set events \<Longrightarrow> sequence e \<le> getLatestSequence events None"
  by (simp add: getLatestSequence_Max matches_project_def del: Max_insert)

lemma increasing_appendEvent: "increasing events \<Longrightarrow> increasing (appendEvent events e)"
  by (auto simp: increasing_def appendEvent_def sorted_wrt_append
      dest!: increasing_latest[unfolded increasing_def, rotated])


subsection \<open>Subscriptions of the stream adapter\<close>

lemma deliver_inactive: "\<not> isActive s \<Longrightarrow> deliver cb str evs s = s"
  by (cases evs) simp_all

lemma step_stopped:
  assumes "stopped (snd w)"
  shows "stopped (snd (step cb str pk a w)) \<and> received (snd (step cb str pk a w)) = received (snd w)
     \<and> length (polls (snd (step cb str pk a w))) \<le> length (polls (snd w))"
proof (cases w)
  case (Pair events s)
  with assms have st: "\<not> isActive s" "\<not> pollInterval s" by (simp_all add: stopped_def)
  show ?thesis
  proof (cases a)
    case (Resume i)
    then show ?thesis
      by (simp add: Pair stopped_def st deliver_inactive drop_nth_def split: option.splits)
  next
    case HeadResume
    then show ?thesis
      by (simp add: Pair stopped_def st split: HeadRequest.splits)
  qed (simp_all add: Pair stopped_def st drop_nth_def unsubscribe_def)
qed

lemma run_stopped:
  "stopped (snd w) \<Longrightarrow>
     stopped (snd (run cb str pk acts w)) \<and> received (snd (run cb str pk acts w)) = received (snd w)
     \<and> length (polls (snd (run cb str pk acts w))) \<le> length (polls (snd w))"
proof (induction acts arbitrary: w)
  case Nil
  then show ?case by (simp add: run_def)
next
  case (Cons a acts)
  from step_stopped[OF Cons.prems, of cb str pk a]
  have 1: "stopped (snd (step cb str pk a w))"
    and 2: "received (snd (step cb str pk a w)) = received (snd w)"
    and 3: "length (polls (snd (step cb str pk a w))) \<le> length (polls (snd w))" by auto
  from Cons.IH[OF 1] 2 3 show ?case by (auto simp: run_def)
qed

lemmas stream_eval = run_def subscribe_def unsubscribe_def appendEvents_def appendEvent_def
  getLatestSequence_def ev_def drop_nth_def readEvents_def matches_project_def
  to_StreamEvent_def

lemma no_call_after_append:
  "no_call_after cb (xs @ ys) \<longleftrightarrow>
     no_call_after cb xs \<and> no_call_after cb ys \<and> ((\<exists>x \<in> set xs. cb x) \<longrightarrow> ys = [])"
  by (induction xs) auto

lemma calls_ok_refl: "calls_ok cb s s"
  by (simp add: calls_ok_def)

lemma calls_ok_same_received:
  "received s' = received s \<Longrightarrow> (\<not> isActive s \<longrightarrow> \<not> isActive s')
     \<Longrightarrow> (\<not> pollInterval s \<longrightarrow> \<not> pollInterval s') \<Longrightarrow> calls_ok cb s s'"
  by (simp add: calls_ok_def)

lemma calls_ok_trans:
  assumes "calls_ok cb s s'" and "calls_ok cb s' s''"
  shows "calls_ok cb s s''"
proof -
  from assms(1) obtain n1 where n1: "received s' = received s @ n1" "no_call_after cb n1"
      "\<not> isActive s \<longrightarrow> n1 = []" "(\<exists>x \<in> set n1. cb x) \<longrightarrow> \<not> isActive s' \<and> \<not> pollInterval s'"
    and f1: "\<not> isActive s \<longrightarrow> \<not> isActive s'" "\<not> pollInterval s \<longrightarrow> \<not> pollInterval s'"
    unfolding calls_ok_def by blast
  from assms(2) obtain n2 where n2: "received s'' = received s' @ n2" "no_call_after cb n2"
      "\<not> isActive s' \<longrightarrow> n2 = []" "(\<exists>x \<in> set n2. cb x) \<longrightarrow> \<not> isActive s'' \<and> \<not> pollInterval s''"
    and f2: "\<not> isActive s' \<longrightarrow> \<not> isActive s''" "\<not> pollInterval s' \<longrightarrow> \<not> pollInterval s''"
    unfolding calls_ok_def by blast
  have "received s'' = received s @ (n1 @ n2)" using n1(1) n2(1) by simp
  moreover have "no_call_after cb (n1 @ n2)"
    using n1 n2 by (auto simp: no_call_after_append)
  moreover have "\<not> isActive s \<longrightarrow> n1 @ n2 = []" using n1(3) n2(3) f1 by auto
  moreover have "(\<exists>x \<in> set (n1 @ n2). cb x) \<longrightarrow> \<not> isActive s'' \<and> \<not> pollInterval s''"
    using n1(4) n2(4) f2 by auto
  ultimately show ?thesis
    unfolding calls_ok_def using f1 f2 by blast
qed

lemma calls_ok_deliver: "calls_ok cb s (deliver cb str evs s)"
proof (induction evs arbitrary: s)
  case Nil
  show ?case by (simp add: calls_ok_refl)
next
  case (Cons event rest)
  show ?case
  proof (cases "isActive s")
    case False
    then show ?thesis by (simp add: calls_ok_refl)
  next
    case True
    let ?se = "to_StreamEvent str event"
    let ?s1 = "s\<lparr> received := received s @ [?se] \<rparr>"
    let ?s3 = "(if cb ?se then unsubscribe ?s1 else ?s1)\<lparr> lastSequence := sequence event \<rparr>"
    have "calls_ok cb s ?s3"
      unfolding calls_ok_def
      by (intro conjI exI[of _ "[?se]"]) (simp_all add: unsubscribe_def True)
    from calls_ok_trans[OF this Cons.IH[of ?s3]] True show ?thesis
      by (simp add: Let_def)
  qed
qed

lemma calls_ok_step: "calls_ok cb (snd w) (snd (step cb str pk a w))"
proof (cases w)
  case (Pair events s)
  show ?thesis
  proof (cases a)
    case (Resume i)
    show ?thesis
    proof (cases "i < length (polls s)")
      case False
      then show ?thesis by (simp add: Pair Resume calls_ok_refl)
    next
      case True
      show ?thesis
      proof (cases "snd (polls s ! i)")
        case None
        with True show ?thesis by (simp add: Pair Resume calls_ok_refl)
      next
        case (Some fetched)
        have "calls_ok cb s (s\<lparr> polls := drop_nth i (polls s) \<rparr>)"
          by (rule calls_ok_same_received) simp_all
        from calls_ok_trans[OF this calls_ok_deliver] True Some show ?thesis
          by (simp add: Pair Resume)
      qed
    qed
  next
    case HeadResume
    then show ?thesis
      by (auto simp: Pair intro!: calls_ok_same_received split: HeadRequest.splits)
  qed (auto simp: Pair unsubscribe_def intro!: calls_ok_same_received)
qed

lemma calls_ok_run: "calls_ok cb (snd w) (snd (run cb str pk acts w))"
proof (induction acts arbitrary: w)
  case Nil
  show ?case by (simp add: run_def calls_ok_refl)
next
  case (Cons a acts)
  from calls_ok_trans[OF calls_ok_step Cons.IH[of "step cb str pk a w"]]
  show ?case by (simp add: run_def)
qed

text \<open>
  C9: once the unsubscribe function has been called, the interval is cleared and,
  whatever happens afterwards (timer ticks, answers to reads that were pending, polls
  that resume with events they had already fetched, new events), the callback is not
  called again: the list of its calls stays as it was. This holds as well when the
  callback itself calls the unsubscribe function while a batch is being delivered: in
  every run, from every state, a call in which the callback unsubscribes is the last
  call, and it leaves the subscription inactive with its interval cleared.
\<close>

theorem unsubscribe_stops_callbacks:
  "\<not> pollInterval (unsubscribe s)
   \<and> received (snd (run cb str pk acts (events, unsubscribe s))) = received s
   \<and> \<not> pollInterval (snd (run cb str pk acts (events, unsubscribe s)))
   \<and> \<not> isActive (snd (run cb str pk acts (events, unsubscribe s)))
   \<and> (\<exists>new. received (snd (run cb str pk acts w)) = received (snd w) @ new
          \<and> no_call_after cb new
          \<and> ((\<exists>x \<in> set new. cb x) \<longrightarrow>
                \<not> isActive (snd (run cb str pk acts w))
                \<and> \<not> pollInterval (snd (run cb str pk acts w))))"
proof -
  have "stopped (snd (events, unsubscribe s))"
    by (simp add: stopped_def unsubscribe_def)
  from run_stopped [OF this, of cb str pk acts]
  have first: "\<not> pollInterval (unsubscribe s)
   \<and> received (snd (run cb str pk acts (events, unsubscribe s))) = received s
   \<and> \<not> pollInterval (snd (run cb str pk acts (events, unsubscribe s)))
   \<and> \<not> isActive (snd (run cb str pk acts (events, unsubscribe s)))"
    by (simp add: stopped_def unsubscribe_def)
  from calls_ok_run [of cb w str pk acts]
  have "\<exists>new. received (snd (run cb str pk acts w)) = received (snd w) @ new
          \<and> no_call_after cb new
          \<and> ((\<exists>x \<in> set new. cb x) \<longrightarrow>
                \<not> isActive (snd (run cb str pk acts w))
                \<and> \<not> pollInterval (snd (run cb str pk acts w)))"
    unfolding calls_ok_def by blast
  with first show ?thesis by blast
qed

theorem unsubscribe_stops_callbacks_witness:
  "polls (snd in_flight_poll) = [(0, Some (appendEvents [] [ev ''p'' ''a'']))]
   \<and> received (snd (run (\<lambda>_. False) payload ''p'' [Resume 0, Tick, Fetch 0, Resume 0]
         (fst in_flight_poll, unsubscribe (snd in_flight_poll)))) = []
   \<and> received (snd unsubscribing_reader)
       = [\<lparr> offset = 1, data = ''a'', stream_timestamp = 1700000000000 \<rparr>]
   \<and> \<not> isActive (snd unsubscribing_reader)
   \<and> \<not> pollInterval (snd unsubscribing_reader)"
proof -
  have "received (snd in_flight_poll) = []"
    by (simp add: in_flight_poll_def stream_eval)
  moreover have "polls (snd in_flight_poll) = [(0, Some (appendEvents [] [ev ''p'' ''a'']))]"
    by (simp add: in_flight_poll_def stream_eval)
  moreover have "received (snd unsubscribing_reader)
       = [\<lparr> offset = 1, data = ''a'', stream_timestamp = 1700000000000 \<rparr>]"
    by (simp add: unsubscribing_reader_def stream_eval)
  moreover have "\<not> isActive (snd unsubscribing_reader)"
    "\<not> pollInterval (snd unsubscribing_reader)"
    by (simp_all add: unsubscribing_reader_def stream_eval)
  ultimately show ?thesis
    using unsubscribe_stops_callbacks [of "snd in_flight_poll" "\<lambda>_. False" payload "''p''"
        "[Resume 0, Tick, Fetch 0, Resume 0]" "fst in_flight_poll"]
    by simp
qed

text \<open>
  C4 on the code: the reader has received the event of offset 1, subscribes again with
  \<^verbatim>\<open>startOffset = 1\<close>, and two polls overlap. Both have asked for the events after
  1, so the callback is called twice with the event of offset 2.
\<close>

theorem resubscribe_overlapping_polls_duplicate:
  "received (snd first_session)
     = [\<lparr> offset = 1, data = ''a'', stream_timestamp = 1700000000000 \<rparr>]
   \<and> received (snd second_session)
     = [\<lparr> offset = 2, data = ''b'', stream_timestamp = 1700000000000 \<rparr>,
        \<lparr> offset = 2, data = ''b'', stream_timestamp = 1700000000000 \<rparr>]"
  by (simp add: second_session_def first_session_def stream_eval)

lemma sorted_le_last:
  "sorted (map f ys) \<Longrightarrow> x \<in> set ys \<Longrightarrow> (f x :: nat) \<le> f (last ys)"
proof (induction ys)
  case Nil
  then show ?case by simp
next
  case (Cons y ys)
  show ?case
  proof (cases "ys = []")
    case True
    with Cons.prems show ?thesis by simp
  next
    case False
    then have "last ys \<in> set ys" by simp
    with Cons False show ?thesis by auto
  qed
qed

lemma take_filter_increasing:
  fixes f :: "'a \<Rightarrow> nat"
  assumes "sorted_wrt (<) (map f xs)" and "take n (filter P xs) \<noteq> []"
  shows "take n (filter P xs) = filter (\<lambda>x. P x \<and> f x \<le> f (last (take n (filter P xs)))) xs"
proof -
  let ?zs = "filter P xs"
  let ?b = "f (last (take n ?zs))"
  from assms(1) have s: "sorted_wrt (<) (map f ?zs)"
    by (simp add: sorted_wrt_map sorted_wrt_filter)
  then have "sorted_wrt (<) (map f (take n ?zs @ drop n ?zs))" by simp
  then have s1: "sorted_wrt (<) (map f (take n ?zs))"
    and s2: "\<forall>x \<in> set (take n ?zs). \<forall>y \<in> set (drop n ?zs). f x < f y"
    unfolding map_append sorted_wrt_append by auto
  from s1 have "sorted (map f (take n ?zs))"
    by (rule strict_sorted_imp_sorted)
  then have le: "f x \<le> ?b" if "x \<in> set (take n ?zs)" for x
    using that by (rule sorted_le_last)
  have gt: "\<not> f y \<le> ?b" if "y \<in> set (drop n ?zs)" for y
    using s2 that last_in_set[OF assms(2)] by (auto simp: not_le)
  have "filter (\<lambda>x. f x \<le> ?b) ?zs
      = filter (\<lambda>x. f x \<le> ?b) (take n ?zs) @ filter (\<lambda>x. f x \<le> ?b) (drop n ?zs)"
    by (metis append_take_drop_id filter_append)
  also have "filter (\<lambda>x. f x \<le> ?b) (take n ?zs) = take n ?zs"
    using le by (simp add: filter_id_conv)
  also have "filter (\<lambda>x. f x \<le> ?b) (drop n ?zs) = []"
    using gt by (simp add: filter_empty_conv)
  finally have "filter (\<lambda>x. f x \<le> ?b) ?zs = take n ?zs" by simp
  then show ?thesis by (simp add: conj_commute)
qed

lemma split_filter_sorted:
  fixes f :: "'a \<Rightarrow> nat"
  assumes "sorted (map f xs)" "L \<le> L'" "a \<le> (L::nat)"
  shows "filter (\<lambda>x. Q x \<and> a < f x \<and> f x \<le> L) xs @ filter (\<lambda>x. Q x \<and> L < f x \<and> f x \<le> L') xs
     = filter (\<lambda>x. Q x \<and> a < f x \<and> f x \<le> L') xs"
  using assms(1)
proof (induction xs)
  case Nil
  show ?case by simp
next
  case (Cons x xs)
  then have IH: "filter (\<lambda>x. Q x \<and> a < f x \<and> f x \<le> L) xs @ filter (\<lambda>x. Q x \<and> L < f x \<and> f x \<le> L') xs
     = filter (\<lambda>x. Q x \<and> a < f x \<and> f x \<le> L') xs" by simp
  show ?case
  proof (cases "f x \<le> L")
    case True
    with IH assms(2) show ?thesis by auto
  next
    case False
    with Cons.prems have "\<forall>y \<in> set xs. L < f y" by auto
    then have "filter (\<lambda>x. Q x \<and> a < f x \<and> f x \<le> L) xs = []"
      by (auto simp: filter_empty_conv)
    with IH False assms(3) show ?thesis by auto
  qed
qed

lemma deliver_all:
  "isActive s \<Longrightarrow>
     deliver (\<lambda>_. False) str evs s
       = s\<lparr> lastSequence := (if evs = [] then lastSequence s else sequence (last evs)),
             received := received s @ map (to_StreamEvent str) evs \<rparr>"
  by (induction evs arbitrary: s) simp_all

lemma readEvents_increasing:
  assumes "increasing events"
  shows "readEvents events (Some pk) (Some L) (Some n)
     = take n (filter (\<lambda>e. project_key e = pk \<and> L < sequence e) events)"
proof -
  from assms
  have "sorted_wrt (<) (map sequence (filter (\<lambda>e. project_key e = pk \<and> L < sequence e) events))"
    by (simp add: increasing_def sorted_wrt_map sorted_wrt_filter)
  then have "sorted (map sequence (filter (\<lambda>e. project_key e = pk \<and> L < sequence e) events))"
    by (rule strict_sorted_imp_sorted)
  then show ?thesis
    by (simp add: readEvents_def matches_project_def sort_key_id_if_sorted)
qed

lemma in_syncD:
  assumes "in_sync str pk start (events, s)"
  shows "increasing events" and "isActive s" and "initialized s" and "pollInterval s"
    and "polls s = []" and "start \<le> lastSequence s"
    and "lastSequence s = start \<or> lastSequence s \<le> getLatestSequence events None"
    and "(if received s = [] then start else offset (last (received s))) = lastSequence s"
    and "received s = map (to_StreamEvent str)
          (filter (\<lambda>e. project_key e = pk \<and> start < sequence e
                        \<and> sequence e \<le> lastSequence s) events)"
  using assms unfolding in_sync_def fst_conv snd_conv by blast+

lemma in_syncI:
  assumes "increasing events" and "isActive s" and "initialized s" and "pollInterval s"
    and "polls s = []" and "start \<le> lastSequence s"
    and "lastSequence s = start \<or> lastSequence s \<le> getLatestSequence events None"
    and "(if received s = [] then start else offset (last (received s))) = lastSequence s"
    and "received s = map (to_StreamEvent str)
          (filter (\<lambda>e. project_key e = pk \<and> start < sequence e
                        \<and> sequence e \<le> lastSequence s) events)"
  shows "in_sync str pk start (events, s)"
  using assms unfolding in_sync_def fst_conv snd_conv by blast

lemma poll_post:
  assumes "in_sync str pk start (events, s)"
  shows "step (\<lambda>_. False) str pk (Resume 0)
           (step (\<lambda>_. False) str pk (Fetch 0) (step (\<lambda>_. False) str pk Tick (events, s)))
     = (events,
        s\<lparr> lastSequence :=
             (if take 100 (filter (\<lambda>e. project_key e = pk \<and> lastSequence s < sequence e) events) = []
              then lastSequence s
              else sequence (last (take 100
                     (filter (\<lambda>e. project_key e = pk \<and> lastSequence s < sequence e) events)))),
           received := received s @ map (to_StreamEvent str)
             (take 100 (filter (\<lambda>e. project_key e = pk \<and> lastSequence s < sequence e) events)) \<rparr>)"
proof -
  note a = in_syncD(2-5)[OF assms] and inc = in_syncD(1)[OF assms]
  show ?thesis
    by (simp add: a drop_nth_def readEvents_increasing[OF inc] deliver_all)
qed

lemma in_sync_append:
  assumes "in_sync str pk start (events, s)"
  shows "in_sync str pk start (step cb str pk (Append e) (events, s))"
proof -
  let ?L = "lastSequence s"
  let ?e = "e\<lparr> event_id := Suc (getLatestSequence events None),
                  sequence := Suc (getLatestSequence events None) \<rparr>"
  note d = in_syncD[OF assms]
  from d(7) have out: "\<not> (start < sequence ?e \<and> sequence ?e \<le> ?L)" by auto
  have latest: "getLatestSequence (appendEvent events e) None = Suc (getLatestSequence events None)"
    by (rule getLatestSequence_appendEvent_None)
  have same: "filter (\<lambda>e. project_key e = pk \<and> start < sequence e \<and> sequence e \<le> ?L) (appendEvent events e)
      = filter (\<lambda>e. project_key e = pk \<and> start < sequence e \<and> sequence e \<le> ?L) events"
    using out by (simp add: appendEvent_def)
  have "in_sync str pk start (appendEvent events e, s)"
  proof (rule in_syncI)
    show "increasing (appendEvent events e)" using d(1) by (rule increasing_appendEvent)
    show "?L = start \<or> ?L \<le> getLatestSequence (appendEvent events e) None"
      using d(7) unfolding latest by auto
    show "received s = map (to_StreamEvent str)
          (filter (\<lambda>e. project_key e = pk \<and> start < sequence e \<and> sequence e \<le> ?L)
             (appendEvent events e))"
      unfolding same by (rule d(9))
  qed (rule d)+
  then show ?thesis by simp
qed

lemma in_sync_poll:
  assumes "in_sync str pk start (events, s)"
  shows "in_sync str pk start
     (step (\<lambda>_. False) str pk (Resume 0)
        (step (\<lambda>_. False) str pk (Fetch 0) (step (\<lambda>_. False) str pk Tick (events, s))))"
proof -
  let ?L = "lastSequence s"
  let ?fetched = "take 100 (filter (\<lambda>e. project_key e = pk \<and> ?L < sequence e) events)"
  note d = in_syncD[OF assms]
  show ?thesis
  proof (cases "?fetched = []")
    case True
    have eq: "s\<lparr> lastSequence := (if ?fetched = [] then ?L else sequence (last ?fetched)),
               received := received s @ map (to_StreamEvent str) ?fetched \<rparr> = s"
      using True by simp
    from assms show ?thesis
      unfolding poll_post[OF assms] eq .
  next
    case False
    let ?L' = "sequence (last ?fetched)"
    let ?s' = "s\<lparr> lastSequence := ?L',
                    received := received s @ map (to_StreamEvent str) ?fetched \<rparr>"
    from False have mem: "last ?fetched \<in> set ?fetched" by (rule last_in_set)
    then have mem': "last ?fetched \<in> set events" and gt: "?L < ?L'"
      by (auto dest!: in_set_takeD)
    from increasing_latest[OF d(1) mem'] have le: "?L' \<le> getLatestSequence events None" .
    from d(1) have srt: "sorted_wrt (<) (map sequence events)" by (simp add: increasing_def)
    from take_filter_increasing[OF srt False]
    have f: "?fetched = filter (\<lambda>e. (project_key e = pk \<and> ?L < sequence e) \<and> sequence e \<le> ?L') events" .
    have "filter (\<lambda>e. project_key e = pk \<and> start < sequence e \<and> sequence e \<le> ?L) events
          @ filter (\<lambda>e. project_key e = pk \<and> ?L < sequence e \<and> sequence e \<le> ?L') events
        = filter (\<lambda>e. project_key e = pk \<and> start < sequence e \<and> sequence e \<le> ?L') events"
      using srt gt d(6) by (intro split_filter_sorted) (simp_all add: strict_sorted_imp_sorted)
    with f have "filter (\<lambda>e. project_key e = pk \<and> start < sequence e \<and> sequence e \<le> ?L) events @ ?fetched
        = filter (\<lambda>e. project_key e = pk \<and> start < sequence e \<and> sequence e \<le> ?L') events"
      by (simp add: conj_assoc)
    then have app: "map (to_StreamEvent str)
          (filter (\<lambda>e. project_key e = pk \<and> start < sequence e \<and> sequence e \<le> ?L) events)
        @ map (to_StreamEvent str) ?fetched
        = map (to_StreamEvent str)
          (filter (\<lambda>e. project_key e = pk \<and> start < sequence e \<and> sequence e \<le> ?L') events)"
      unfolding map_append[symmetric] by (rule arg_cong)
    have "in_sync str pk start (events, ?s')"
    proof (rule in_syncI)
      show "increasing events" by (rule d(1))
      show "isActive ?s'" "initialized ?s'" "pollInterval ?s'" "polls ?s' = []"
        using d(2-5) by simp_all
      show "start \<le> lastSequence ?s'" using d(6) gt by simp
      show "lastSequence ?s' = start \<or> lastSequence ?s' \<le> getLatestSequence events None"
        using le by simp
      show "(if received ?s' = [] then start else offset (last (received ?s'))) = lastSequence ?s'"
        using False by (simp add: last_map to_StreamEvent_def)
      show "received ?s' = map (to_StreamEvent str)
          (filter (\<lambda>e. project_key e = pk \<and> start < sequence e
                        \<and> sequence e \<le> lastSequence ?s') events)"
        using app d(9) by simp
    qed
    with False show ?thesis
      unfolding poll_post[OF assms] by (simp only: if_False)
  qed
qed

lemma in_sync_run:
  "sequential acts \<Longrightarrow> in_sync str pk start w \<Longrightarrow>
     in_sync str pk start (run (\<lambda>_. False) str pk acts w)"
proof (induction acts arbitrary: w rule: sequential.induct)
  case 1
  then show ?case by (simp add: run_def)
next
  case (2 e acts)
  from 2(3) have "in_sync str pk start (step (\<lambda>_. False) str pk (Append e) w)"
    by (cases w) (simp only: in_sync_append)
  with 2 show ?case by (simp add: run_def)
next
  case (3 i j acts)
  from 3(2) have ij: "i = 0" "j = 0" and sq: "sequential acts" by simp_all
  from 3(3) have "in_sync str pk start
     (step (\<lambda>_. False) str pk (Resume 0)
        (step (\<lambda>_. False) str pk (Fetch 0) (step (\<lambda>_. False) str pk Tick w)))"
    by (cases w) (simp only: in_sync_poll)
  from 3(1)[OF sq this] ij show ?case by (simp add: run_def)
qed simp_all

lemma in_sync_subscribe:
  "increasing events \<Longrightarrow> in_sync str pk start (events, subscribe (Some start))"
  by (rule in_syncI) (simp_all add: subscribe_def)


lemma fst_step_not_Append:
  "\<not> (\<exists>e. a = Append e) \<Longrightarrow> fst (step cb str pk a w) = fst w"
  by (cases w; cases a) simp_all

lemma run_keeps_delivered_range:
  "L \<le> a \<or> L \<le> getLatestSequence (fst w) None \<Longrightarrow>
     filter (\<lambda>e. P e \<and> a < sequence e \<and> sequence e \<le> L) (fst (run cb str pk acts w))
       = filter (\<lambda>e. P e \<and> a < sequence e \<and> sequence e \<le> L) (fst w)"
proof (induction acts arbitrary: w)
  case Nil
  show ?case by (simp add: run_def)
next
  case (Cons act acts)
  obtain events s where w: "w = (events, s)" by (cases w)
  have step_ok: "(L \<le> a \<or> L \<le> getLatestSequence (fst (step cb str pk act w)) None)
     \<and> filter (\<lambda>e. P e \<and> a < sequence e \<and> sequence e \<le> L) (fst (step cb str pk act w))
         = filter (\<lambda>e. P e \<and> a < sequence e \<and> sequence e \<le> L) (fst w)"
  proof (cases "\<exists>e. act = Append e")
    case True
    then obtain e where act: "act = Append e" by blast
    from Cons.prems show ?thesis
      by (auto simp: act w getLatestSequence_appendEvent_None) (auto simp: appendEvent_def)
  next
    case False
    then have "fst (step cb str pk act w) = fst w"
      by (rule fst_step_not_Append)
    with Cons.prems show ?thesis by simp
  qed
  from Cons.IH[of "step cb str pk act w"] step_ok show ?case
    by (simp add: run_def)
qed

text \<open>
  Resumption when polls do not overlap: a reader that has received events from a
  subscription at offset 0, and subscribes again from the offset of the last event it
  received, has then received, over both subscriptions, the events of the project up to
  its new \<^verbatim>\<open>lastSequence\<close>, each once and in order of sequence. By the invariant
  this is what one subscription from offset 0 that has come as far has received.
\<close>

lemma resubscribe_sequential_polls:
  assumes inc: "increasing events0"
    and s1: "sequential acts1" and s2: "sequential acts2"
    and r1: "run (\<lambda>_. False) str pk acts1 (events0, subscribe (Some 0)) = (events1, sub1)"
    and got: "received sub1 \<noteq> []"
    and r2: "run (\<lambda>_. False) str pk acts2
               (events1, subscribe (Some (offset (last (received sub1))))) = (events2, sub2)"
  shows "received sub1 @ received sub2
     = map (to_StreamEvent str)
         (filter (\<lambda>e. project_key e = pk \<and> 0 < sequence e \<and> sequence e \<le> lastSequence sub2)
            events2)"
proof -
  define lastOffset where "lastOffset = offset (last (received sub1))"
  from in_sync_run[OF s1 in_sync_subscribe[OF inc], of str pk 0] r1
  have i1: "in_sync str pk 0 (events1, sub1)" by simp
  from in_syncD(8)[OF i1] got have L1: "lastSequence sub1 = lastOffset"
    unfolding lastOffset_def by (simp only: if_False)
  from i1 have inc1: "increasing events1" by (rule in_syncD)
  from in_sync_run[OF s2 in_sync_subscribe[OF inc1], of str pk lastOffset] r2
  have i2: "in_sync str pk lastOffset (events2, sub2)"
    unfolding lastOffset_def by simp
  note d2 = in_syncD[OF i2]
  have inc2: "increasing events2" by (rule d2(1))
  have le: "lastOffset \<le> lastSequence sub2" by (rule d2(6))
  have rec2: "received sub2 = map (to_StreamEvent str)
          (filter (\<lambda>e. project_key e = pk \<and> lastOffset < sequence e
                        \<and> sequence e \<le> lastSequence sub2) events2)"
    by (rule d2(9))
  have rec1: "received sub1 = map (to_StreamEvent str)
          (filter (\<lambda>e. project_key e = pk \<and> 0 < sequence e \<and> sequence e \<le> lastOffset) events1)"
    using in_syncD(9)[OF i1] unfolding L1 .
  have old: "lastOffset \<le> 0 \<or> lastOffset \<le> getLatestSequence events1 None"
    using in_syncD(7)[OF i1] unfolding L1 by auto
  from run_keeps_delivered_range[of lastOffset 0 "(events1, subscribe (Some lastOffset))"
      "\<lambda>e. project_key e = pk" "\<lambda>_. False" str pk acts2] old r2
  have same: "filter (\<lambda>e. project_key e = pk \<and> 0 < sequence e \<and> sequence e \<le> lastOffset) events2
      = filter (\<lambda>e. project_key e = pk \<and> 0 < sequence e \<and> sequence e \<le> lastOffset) events1"
    unfolding lastOffset_def by simp
  from inc2 have "sorted (map sequence events2)"
    by (simp add: increasing_def strict_sorted_imp_sorted)
  from split_filter_sorted[OF this le, of 0 "\<lambda>e. project_key e = pk"]
  have "filter (\<lambda>e. project_key e = pk \<and> 0 < sequence e \<and> sequence e \<le> lastOffset) events2
        @ filter (\<lambda>e. project_key e = pk \<and> lastOffset < sequence e \<and> sequence e \<le> lastSequence sub2) events2
      = filter (\<lambda>e. project_key e = pk \<and> 0 < sequence e \<and> sequence e \<le> lastSequence sub2) events2"
    by simp
  then have "map (to_StreamEvent str)
          (filter (\<lambda>e. project_key e = pk \<and> 0 < sequence e \<and> sequence e \<le> lastOffset) events2)
        @ map (to_StreamEvent str)
          (filter (\<lambda>e. project_key e = pk \<and> lastOffset < sequence e \<and> sequence e \<le> lastSequence sub2) events2)
      = map (to_StreamEvent str)
          (filter (\<lambda>e. project_key e = pk \<and> 0 < sequence e \<and> sequence e \<le> lastSequence sub2) events2)"
    unfolding map_append[symmetric] by (rule arg_cong)
  with rec1 rec2 same show ?thesis by (simp only:)
qed

subsection \<open>Vector search\<close>















subsection \<open>Replay\<close>











subsection \<open>Reservations\<close>













end
